theory Spec2Isabelle
  imports Complex_Main "HOL-Library.Word"
begin

unbundle bit_operations_syntax

section \<open>JavaScript values used by the listener\<close>

text \<open>
  A byte of a \<^verbatim>\<open>Uint8Array\<close> is an 8-bit word. The value \<^verbatim>\<open>undefined\<close> of a read past
  the end of the array is \<open>None\<close>. JavaScript numbers appear in two forms. The parsed
  value \<^verbatim>\<open>data[2] / 127\<close> and the velocity are a \<open>jsnum\<close>: the exact quotient, or
  \<open>NaN\<close>; what is proved of them (sign, presence, range) does not depend on the rounding
  of the quotient to a double. The frequency of a note is a \<open>double\<close>, computed with the
  rounding, overflow and underflow of IEEE-754 binary64 arithmetic.
\<close>

type_synonym u8 = "8 word"

datatype jsnum = Num real | NaN

text \<open>Reading \<^verbatim>\<open>data[i]\<close> from a typed array: \<^verbatim>\<open>undefined\<close> out of range, never an error.\<close>

definition js_index :: "u8 list \<Rightarrow> nat \<Rightarrow> u8 option" where
  "js_index xs i = (if i < length xs then Some (xs ! i) else None)"

text \<open>\<^verbatim>\<open>ToNumber\<close> of a byte or of \<^verbatim>\<open>undefined\<close>.\<close>

fun to_number :: "u8 option \<Rightarrow> jsnum" where
  "to_number None = NaN"
| "to_number (Some b) = Num (real (unat b))"

text \<open>
  \<^verbatim>\<open>x >> 4\<close> and \<^verbatim>\<open>x & 0xf\<close> convert their operand with \<^verbatim>\<open>ToInt32\<close>, which sends
  \<^verbatim>\<open>undefined\<close> to 0; on a byte the result is the high, respectively low, nibble.
\<close>

fun js_shr4 :: "u8 option \<Rightarrow> nat" where
  "js_shr4 None = 0"
| "js_shr4 (Some b) = unat (drop_bit 4 b)"

fun js_and_0xf :: "u8 option \<Rightarrow> nat" where
  "js_and_0xf None = 0"
| "js_and_0xf (Some b) = unat (b AND 0xf)"

fun js_neg :: "jsnum \<Rightarrow> jsnum" where
  "js_neg NaN = NaN"
| "js_neg (Num x) = Num (- x)"

text \<open>
  The parser divides by the constant 127 only. A zero divisor, which would give an
  infinity, does not occur; it is sent to \<open>NaN\<close> here.
\<close>

fun js_div :: "jsnum \<Rightarrow> jsnum \<Rightarrow> jsnum" where
  "js_div (Num x) (Num y) = (if y = 0 then NaN else Num (x / y))"
| "js_div _ _ = NaN"

section \<open>Double precision arithmetic\<close>

text \<open>
  A double is a finite real, an infinity or NaN. The zero \<open>Finite 0\<close> stands for both
  signed zeros: on a code that is a double the frequency computation never produces the
  negative one.
\<close>

datatype double = Finite real | PosInfinity | NegInfinity | NotANumber

text \<open>Rounding a real to the nearest integer, a tie going to the even neighbour.\<close>

definition round_half_even :: "real \<Rightarrow> int" where
  "round_half_even q =
     (let f = \<lfloor>q\<rfloor>; d = q - of_int f
      in if d < 1 / 2 then f else if 1 / 2 < d then f + 1 else if even f then f else f + 1)"

text \<open>
  Rounding a real to binary64, to nearest with ties to even. A non-zero \<open>x\<close> with
  binary exponent \<open>e\<close>, not below the least normal exponent \<open>- 1022\<close>, is rounded to a
  multiple of \<open>2 powr (e - 52)\<close>: 53 significant bits, and the fixed spacing of the
  subnormal numbers below \<open>2 powr (- 1022)\<close>, where small values round to zero. A result
  of magnitude \<open>2 ^ 1024\<close> or more is an infinity.
\<close>

definition round_double :: "real \<Rightarrow> double" where
  "round_double x =
     (if x = 0 then Finite 0
      else let e = max \<lfloor>log 2 \<bar>x\<bar>\<rfloor> (- 1022);
               u = 2 powr of_int (e - 52);
               y = of_int (round_half_even (x / u)) * u
           in if 2 ^ 1024 \<le> y then PosInfinity
              else if y \<le> - (2 ^ 1024) then NegInfinity
              else Finite y)"

fun double_of :: "jsnum \<Rightarrow> double" where
  "double_of (Num x) = Finite x"
| "double_of NaN = NotANumber"

text \<open>
  The three arithmetic operations of the frequency computation. Each has a constant
  operand: \<open>double_sub x k\<close> is \<^verbatim>\<open>x - k\<close>, \<open>double_div x k\<close> is \<^verbatim>\<open>x / k\<close> and
  \<open>double_mul k x\<close> is \<^verbatim>\<open>k * x\<close>, for a finite constant \<open>k\<close>, positive in the last two.
\<close>

fun double_sub :: "double \<Rightarrow> real \<Rightarrow> double" where
  "double_sub (Finite x) k = round_double (x - k)"
| "double_sub PosInfinity k = PosInfinity"
| "double_sub NegInfinity k = NegInfinity"
| "double_sub NotANumber k = NotANumber"

fun double_div :: "double \<Rightarrow> real \<Rightarrow> double" where
  "double_div (Finite x) k = round_double (x / k)"
| "double_div PosInfinity k = PosInfinity"
| "double_div NegInfinity k = NegInfinity"
| "double_div NotANumber k = NotANumber"

fun double_mul :: "real \<Rightarrow> double \<Rightarrow> double" where
  "double_mul k (Finite x) = round_double (k * x)"
| "double_mul k PosInfinity = PosInfinity"
| "double_mul k NegInfinity = NegInfinity"
| "double_mul k NotANumber = NotANumber"

text \<open>
  \<^verbatim>\<open>Math.pow(2, y)\<close>. The language fixes its result in special cases only: a NaN
  exponent gives NaN, a zero exponent gives 1, the exponent \<open>+\<infinity>\<close> gives \<open>+\<infinity>\<close> and
  \<open>-\<infinity>\<close> gives 0. Everywhere else the result is an approximation left to the
  implementation; of it only the overflow is taken for granted: where \<open>2 powr y\<close> is at
  least \<open>2 ^ 1024\<close> the result is \<open>+\<infinity>\<close>. \<open>math_pow_2\<close> is an arbitrary function with
  these properties; nothing else is known of it.
\<close>

definition pow_2_fixed :: "(double \<Rightarrow> double) \<Rightarrow> bool" where
  "pow_2_fixed f \<longleftrightarrow>
     f NotANumber = NotANumber \<and> f (Finite 0) = Finite 1 \<and>
     f PosInfinity = PosInfinity \<and> f NegInfinity = Finite 0 \<and>
     (\<forall>y. 1024 \<le> y \<longrightarrow> f (Finite y) = PosInfinity)"

definition math_pow_2 :: "double \<Rightarrow> double" where
  "math_pow_2 = (SOME f. pow_2_fixed f)"


section \<open>Reports and events\<close>

text \<open>
  \<^verbatim>\<open>MessageReport\<close> of \<^verbatim>\<open>reports.ts\<close>. The field \<^verbatim>\<open>value\<close> is called \<open>val\<close> here.
  At run time \<^verbatim>\<open>code\<close> is a byte or \<^verbatim>\<open>undefined\<close>.
\<close>

record MessageReport =
  data :: "u8 list"
  command :: nat
  channel :: nat
  code :: "u8 option"
  val :: jsnum

text \<open>
  Every call of one of the listener's callbacks is recorded as an event, in the order
  of the calls; callbacks are taken to return normally.
  \<open>Note c v f\<close> is \<^verbatim>\<open>onNote({code: c, velocity: v, frequency: f})\<close>,
  \<open>Pad c v\<close> is \<^verbatim>\<open>onPad({code: c, velocity: v})\<close>,
  \<open>PitchBend v\<close> and \<open>ModWheel v\<close> carry \<^verbatim>\<open>{value: v}\<close>,
  \<open>InputChange ns\<close> is \<^verbatim>\<open>onInputChange({inputNames: ns})\<close>.
\<close>

datatype event =
    InputChange "string list"
  | Message MessageReport
  | Note "u8 option" jsnum double
  | Pad "u8 option" jsnum
  | PitchBend jsnum
  | ModWheel jsnum

section \<open>The message classifier (MidiListener.ts)\<close>

definition parseMidiMessage :: "u8 list \<Rightarrow> MessageReport" where
  "parseMidiMessage d =
     \<lparr> data = d,
       command = js_shr4 (js_index d 0),
       channel = js_and_0xf (js_index d 0),
       code = js_index d 1,
       val = js_div (to_number (js_index d 2)) (Num 127) \<rparr>"

text \<open>
  \<^verbatim>\<open>noteCodeToFrequency\<close> takes a number. The handler passes it the code, which the
  subtraction \<^verbatim>\<open>code - 69\<close> converts with \<^verbatim>\<open>ToNumber\<close>; the conversion is written at the
  call. \<open>frequency_with pow\<close> is the body of the function, \<^verbatim>\<open>440 * Math.pow(2, (code - 69) / 12)\<close>,
  with the \<^verbatim>\<open>Math.pow(2, _)\<close> of the platform as a parameter; the function itself runs on
  \<open>math_pow_2\<close>.
\<close>

definition frequency_with :: "(double \<Rightarrow> double) \<Rightarrow> jsnum \<Rightarrow> double" where
  "frequency_with pow c = double_mul 440 (pow (double_div (double_sub (double_of c) 69) 12))"

definition noteCodeToFrequency :: "jsnum \<Rightarrow> double" where
  "noteCodeToFrequency c = frequency_with math_pow_2 c"

definition handleMidiMessage :: "u8 list \<Rightarrow> event list" where
  "handleMidiMessage midiMessage =
     (let messageReport = parseMidiMessage midiMessage;
          cmd = command messageReport;
          chan = channel messageReport;
          cd = code messageReport;
          v = val messageReport
      in Message messageReport #
         (if cmd = 8 \<or> cmd = 9 then
            (let isStopCommand = (cmd = 9);
                 velocity = (if isStopCommand then v else js_neg v)
             in if chan = 0 \<or> chan = 15 then
                  [Note cd velocity (noteCodeToFrequency (to_number cd))]
                else if chan = 9 then [Pad cd velocity]
                else [])
          else if cmd = 11 then (if cd = Some 1 then [ModWheel v] else [])
          else if cmd = 14 then [PitchBend v]
          else []))"

section \<open>The input curator (MidiListener.ts)\<close>

text \<open>
  A \<^verbatim>\<open>MIDIInput\<close> of the Web MIDI declarations, with the fields the listener reads or
  writes (\<^verbatim>\<open>id\<close> is called \<open>port_id\<close>). The message handler slot holds a function from
  the message bytes to the callback calls it makes, or nothing.
\<close>

datatype MIDIPortDeviceState = Connected | Disconnected

datatype MIDIPortConnectionState = Open | Closed | Pending

record MIDIInput =
  port_id :: string
  name :: string
  state :: MIDIPortDeviceState
  connection :: MIDIPortConnectionState
  onmidimessage :: "(u8 list \<Rightarrow> event list) option"

text \<open>
  \<^verbatim>\<open>access.inputs\<close> is a \<^verbatim>\<open>Map\<close> from port ids to inputs; it is kept as the list of its
  entries in enumeration order, which is the order of \<^verbatim>\<open>inputs.values()\<close>.
\<close>

record MIDIAccess =
  inputs :: "(string \<times> MIDIInput) list"

text \<open>
  The one mutable field of the listener. It is declared without an initialiser, so it
  is \<^verbatim>\<open>undefined\<close> (\<open>None\<close>) until the first curation assigns it.
\<close>

record MidiListener =
  numberOfOpenConnections :: "nat option"

text \<open>
  The \<^verbatim>\<open>for\<close> loop of \<^verbatim>\<open>curateMidiInputs\<close> over the inputs, with its two local
  accumulators. It returns the inputs with their handler slot assigned.
\<close>

fun curate_loop ::
  "(string \<times> MIDIInput) list \<Rightarrow> string list \<Rightarrow> nat \<Rightarrow>
   (string \<times> MIDIInput) list \<times> string list \<times> nat" where
  "curate_loop [] inputNames n = ([], inputNames, n)"
| "curate_loop ((k, input) # rest) inputNames n =
     (let input' = input\<lparr>onmidimessage := Some handleMidiMessage\<rparr>;
          inputNames' = inputNames @ [name input];
          n' = (if state input = Connected \<and> connection input = Open then n + 1 else n)
      in case curate_loop rest inputNames' n' of
           (rest', names, m) \<Rightarrow> ((k, input') # rest', names, m))"

definition curateMidiInputs ::
  "MIDIAccess \<Rightarrow> MidiListener \<Rightarrow> event list \<times> MIDIAccess \<times> MidiListener" where
  "curateMidiInputs access this =
     (case curate_loop (inputs access) [] 0 of
        (inputs', inputNames, n) \<Rightarrow>
          (if Some n \<noteq> numberOfOpenConnections this
           then ([InputChange inputNames], access\<lparr>inputs := inputs'\<rparr>,
                 this\<lparr>numberOfOpenConnections := Some n\<rparr>)
           else ([], access\<lparr>inputs := inputs'\<rparr>, this)))"

text \<open>The listener as the constructor leaves it before its first curation.\<close>

definition new_MidiListener :: MidiListener where
  "new_MidiListener = \<lparr>numberOfOpenConnections = None\<rparr>"

text \<open>
  The curation calls of a listener's life: the first from the constructor, the later
  ones from \<^verbatim>\<open>onstatechange\<close>. The host changes the device list between calls, so each
  call comes with the access object as it is then. Every call yields the callback calls it
  made and the listener after it.
\<close>

fun curation_calls ::
  "MidiListener \<Rightarrow> MIDIAccess list \<Rightarrow> (event list \<times> MidiListener) list" where
  "curation_calls this [] = []"
| "curation_calls this (a # as) =
     (case curateMidiInputs a this of
        (evs, a', this') \<Rightarrow> (evs, this') # curation_calls this' as)"

text \<open>The two quantities of the device snapshot, in the words of the specification.\<close>

definition input_names :: "MIDIAccess \<Rightarrow> string list" where
  "input_names a = map (\<lambda>(k, i). name i) (inputs a)"

definition open_connected_count :: "MIDIAccess \<Rightarrow> nat" where
  "open_connected_count a =
     length (filter (\<lambda>(k, i). state i = Connected \<and> connection i = Open) (inputs a))"

text \<open>
  Devices and device lists for examples: the number of open, connected inputs goes
  0, 2, 2, 1 along \<open>example_snapshots\<close>.
\<close>

definition port :: "string \<Rightarrow> MIDIPortDeviceState \<Rightarrow> MIDIPortConnectionState \<Rightarrow> string \<times> MIDIInput" where
  "port n s c = (n, \<lparr>port_id = n, name = n, state = s, connection = c, onmidimessage = None\<rparr>)"

definition example_snapshots :: "MIDIAccess list" where
  "example_snapshots =
     [\<lparr>inputs = []\<rparr>,
      \<lparr>inputs = [port ''keys'' Connected Open, port ''pads'' Connected Open]\<rparr>,
      \<lparr>inputs = [port ''keys'' Connected Open, port ''pads'' Connected Open,
                 port ''wind'' Connected Closed]\<rparr>,
      \<lparr>inputs = [port ''keys'' Connected Open, port ''pads'' Disconnected Closed]\<rparr>]"

section \<open>The callback registry (Caller.ts)\<close>

text \<open>
  A callback is known by its identity \<open>'f\<close>: \<^verbatim>\<open>remove\<close> compares functions by reference.
  The field \<^verbatim>\<open>callbacks\<close> refers to an array object; \<^verbatim>\<open>add\<close> pushes onto that object in
  place, while \<^verbatim>\<open>remove\<close> and \<^verbatim>\<open>clear\<close> make the field refer to a new array. The
  arrays therefore live in a store indexed by addresses, \<open>fresh\<close> being the next unused
  address.
\<close>

record 'f Caller =
  arrays :: "nat \<Rightarrow> 'f list"
  callbacks :: nat
  fresh :: nat

definition new_Caller :: "'f Caller" where
  "new_Caller = \<lparr>arrays = (\<lambda>_. []), callbacks = 0, fresh = 1\<rparr>"

definition Caller_add :: "'f \<Rightarrow> 'f Caller \<Rightarrow> 'f Caller" where
  "Caller_add callback c =
     c\<lparr>arrays := (arrays c)(callbacks c := arrays c (callbacks c) @ [callback])\<rparr>"

definition Caller_remove :: "'f \<Rightarrow> 'f Caller \<Rightarrow> 'f Caller" where
  "Caller_remove callback c =
     c\<lparr>arrays := (arrays c)(fresh c := filter (\<lambda>cb. cb \<noteq> callback) (arrays c (callbacks c))),
       callbacks := fresh c,
       fresh := Suc (fresh c)\<rparr>"

definition Caller_clear :: "'f Caller \<Rightarrow> 'f Caller" where
  "Caller_clear c =
     c\<lparr>arrays := (arrays c)(fresh c := []), callbacks := fresh c, fresh := Suc (fresh c)\<rparr>"

text \<open>The array the field \<^verbatim>\<open>callbacks\<close> refers to: the subscribers at this moment.\<close>

definition registered :: "'f Caller \<Rightarrow> 'f list" where
  "registered c = arrays c (callbacks c)"

text \<open>
  What the body of a callback does to the registry that is calling it: a sequence of
  calls of the registry's own operations. Unsubscribing from within a callback is the
  operation \<open>Remove\<close>.
\<close>

datatype 'f caller_op = Add 'f | Remove 'f | Clear

fun run_op :: "'f caller_op \<Rightarrow> 'f Caller \<Rightarrow> 'f Caller" where
  "run_op (Add f) c = Caller_add f c"
| "run_op (Remove f) c = Caller_remove f c"
| "run_op Clear c = Caller_clear c"

text \<open>
  The \<^verbatim>\<open>for ... of\<close> loop of \<^verbatim>\<open>invoke\<close>. The iterator holds the array \<open>r\<close> it was
  created on and an index \<open>i\<close>, and reads the length of that array anew at every step.
  \<open>beh callback args\<close> is what the callback does when applied to \<open>args\<close>; \<open>called\<close>
  collects the callbacks applied so far. A loop that never ends has the value \<open>None\<close>.
\<close>

partial_function (option) invoke_loop ::
  "('f \<Rightarrow> 'a \<Rightarrow> 'f caller_op list) \<Rightarrow> 'a \<Rightarrow> nat \<Rightarrow> nat \<Rightarrow> 'f list \<Rightarrow> 'f Caller \<Rightarrow>
   ('f list \<times> 'f Caller) option" where
  "invoke_loop beh args r i called c =
     (if i < length (arrays c r)
      then invoke_loop beh args r (Suc i) (called @ [arrays c r ! i])
             (fold run_op (beh (arrays c r ! i) args) c)
      else Some (called, c))"

definition Caller_invoke ::
  "('f \<Rightarrow> 'a \<Rightarrow> 'f caller_op list) \<Rightarrow> 'a \<Rightarrow> 'f Caller \<Rightarrow> ('f list \<times> 'f Caller) option" where
  "Caller_invoke beh args c = invoke_loop beh args (callbacks c) 0 [] c"

text \<open>Bodies that subscribe nothing: they contain no \<open>Add\<close>.\<close>

fun is_Add :: "'f caller_op \<Rightarrow> bool" where
  "is_Add (Add f) = True"
| "is_Add (Remove f) = False"
| "is_Add Clear = False"

definition adds_nothing :: "'f caller_op list \<Rightarrow> bool" where
  "adds_nothing ops = (\<not> list_ex is_Add ops)"

text \<open>The registry after the bodies of the callbacks \<open>gs\<close> have run in turn.\<close>

definition after_callbacks ::
  "('f \<Rightarrow> 'a \<Rightarrow> 'f caller_op list) \<Rightarrow> 'a \<Rightarrow> 'f list \<Rightarrow> 'f Caller \<Rightarrow> 'f Caller" where
  "after_callbacks beh args gs c = fold (\<lambda>g. fold run_op (beh g args)) gs c"

text \<open>
  A registry for examples with the subscribers 1, 2, 3, where the callback 2
  unsubscribes itself when it is called and the others leave the registry alone.
\<close>

definition example_caller :: "nat Caller" where
  "example_caller = Caller_add 3 (Caller_add 2 (Caller_add 1 new_Caller))"

definition example_beh :: "nat \<Rightarrow> nat \<Rightarrow> nat caller_op list" where
  "example_beh g a = (if g = 2 then [Remove 2] else [])"

section \<open>Subscriptions of the listener built on the registry\<close>

text \<open>
  The keys of the listener's \<^verbatim>\<open>events\<close> object, in the order a \<^verbatim>\<open>for ... in\<close> loop
  visits them, and the object itself: one registry for each key. A configuration of
  callbacks gives a callback for some of the keys.
\<close>

datatype eventName = onInputChange | onMessage | onNote | onPad | onPitchBend | onModWheel

definition eventNames :: "eventName list" where
  "eventNames = [onInputChange, onMessage, onNote, onPad, onPitchBend, onModWheel]"

type_synonym 'f events = "eventName \<Rightarrow> 'f Caller"

type_synonym 'f MidiListenerEventCallbacks = "eventName \<Rightarrow> 'f option"

text \<open>The function \<^verbatim>\<open>subscribe\<close> returns: it revokes the subscriptions of \<open>cbs\<close>.\<close>

definition revoke :: "'f MidiListenerEventCallbacks \<Rightarrow> 'f events \<Rightarrow> 'f events" where
  "revoke cbs evs =
     fold (\<lambda>e ev. case cbs e of None \<Rightarrow> ev | Some f \<Rightarrow> ev(e := Caller_remove f (ev e)))
       eventNames evs"

definition subscribe ::
  "'f MidiListenerEventCallbacks \<Rightarrow> 'f events \<Rightarrow> 'f events \<times> ('f events \<Rightarrow> 'f events)" where
  "subscribe cbs evs =
     (fold (\<lambda>e ev. case cbs e of None \<Rightarrow> ev | Some f \<Rightarrow> ev(e := Caller_add f (ev e)))
        eventNames evs,
      revoke cbs)"

definition new_events :: "'f events" where
  "new_events = (\<lambda>e. new_Caller)"

text \<open>Two configurations for examples, each with a callback for notes and one for pads.\<close>

definition example_cbs_A :: "nat MidiListenerEventCallbacks" where
  "example_cbs_A = [onNote \<mapsto> 1, onPad \<mapsto> 2]"

definition example_cbs_B :: "nat MidiListenerEventCallbacks" where
  "example_cbs_B = [onNote \<mapsto> 3, onPad \<mapsto> 4]"

section \<open>Properties of the message classifier\<close>

lemma js_shr4_index0: "js_shr4 (js_index (s # rest) 0) = unat s div 16"
  by (simp add: js_index_def drop_bit_eq_div unat_div)

lemma js_and_0xf_index0: "js_and_0xf (js_index (s # rest) 0) = unat s mod 16"
proof -
  have "s AND 0xf = take_bit 4 s"
    by (simp add: take_bit_eq_mask mask_eq_exp_minus_1)
  then show ?thesis
    by (simp add: js_index_def take_bit_eq_mod unat_mod)
qed

lemma command_Cons: "command (parseMidiMessage (s # rest)) = unat s div 16"
  by (simp add: parseMidiMessage_def js_shr4_index0)

lemma channel_Cons: "channel (parseMidiMessage (s # rest)) = unat s mod 16"
  by (simp add: parseMidiMessage_def js_and_0xf_index0)

lemma channel_less_16: "channel (parseMidiMessage d) < 16"
  by (cases d) (simp_all add: channel_Cons, simp add: parseMidiMessage_def js_index_def)

lemma div_127_unit: "n \<le> 127 \<Longrightarrow> 0 \<le> real n / 127 \<and> real n / 127 \<le> 1"
  by simp

text \<open>
  Claim C1. For a message whose command is 8 or 9, the handler reports the velocity
  \<open>val\<close> when the command is 9 and its negation when the command is 8: in a Note report
  on the channels 0 and 15, in a Pad report on channel 9. When the third byte is
  present, \<open>val\<close> is that byte divided by 127.
\<close>

theorem handleMidiMessage_velocity_sign:
  "command (parseMidiMessage d) = 8 \<or> command (parseMidiMessage d) = 9 \<Longrightarrow>
   (let r = parseMidiMessage d;
        velocity = (if command r = 9 then val r else js_neg (val r))
    in (channel r = 0 \<or> channel r = 15 \<longrightarrow>
          handleMidiMessage d =
            [Message r, Note (code r) velocity (noteCodeToFrequency (to_number (code r)))]) \<and>
       (channel r = 9 \<longrightarrow> handleMidiMessage d = [Message r, Pad (code r) velocity]) \<and>
       (\<forall>b. js_index d 2 = Some b \<longrightarrow> val r = Num (real (unat b) / 127)))"
  by (auto simp add: handleMidiMessage_def Let_def parseMidiMessage_def)

text \<open>
  The note-off message \<open>0x80, 60, 64\<close> has the velocity \<open>- (64 / 127)\<close>, and the pad-on
  message \<open>0x99, 40, 100\<close> has the velocity \<open>100 / 127\<close>.
\<close>

theorem handleMidiMessage_velocity_sign_witness:
  "handleMidiMessage [0x80, 60, 64] =
     [Message (parseMidiMessage [0x80, 60, 64]),
      Note (Some 60) (Num (- (64 / 127))) (noteCodeToFrequency (Num 60))] \<and>
   handleMidiMessage [0x99, 40, 100] =
     [Message (parseMidiMessage [0x99, 40, 100]), Pad (Some 40) (Num (100 / 127))]"
proof -
  have c1: "command (parseMidiMessage [0x80, 60, 64]) = 8"
    by (simp add: command_Cons)
  have c2: "command (parseMidiMessage [0x99, 40, 100]) = 9"
    by (simp add: command_Cons)
  have h1: "channel (parseMidiMessage [0x80, 60, 64]) = 0"
    by (simp add: channel_Cons)
  have h2: "channel (parseMidiMessage [0x99, 40, 100]) = 9"
    by (simp add: channel_Cons)
  have v1: "val (parseMidiMessage [0x80, 60, 64]) = Num (64 / 127)"
    by (simp add: parseMidiMessage_def js_index_def)
  have v2: "val (parseMidiMessage [0x99, 40, 100]) = Num (100 / 127)"
    by (simp add: parseMidiMessage_def js_index_def)
  have k1: "code (parseMidiMessage [0x80, 60, 64]) = Some 60"
    by (simp add: parseMidiMessage_def js_index_def)
  have k2: "code (parseMidiMessage [0x99, 40, 100]) = Some 40"
    by (simp add: parseMidiMessage_def js_index_def)
  show ?thesis
    using handleMidiMessage_velocity_sign [of "[0x80, 60, 64]"]
          handleMidiMessage_velocity_sign [of "[0x99, 40, 100]"]
    by (simp add: c1 c2 h1 h2 v1 v2 k1 k2 Let_def)
qed

text \<open>
  Claim C2. The handler first reports the parsed message, then at most one further
  report: a Note exactly when the command is 8 or 9 and the channel is 0 or 15, a Pad
  exactly when the command is 8 or 9 and the channel is 9, a ModWheel exactly when the
  command is 11 and the code is 1, a PitchBend exactly when the command is 14, whatever
  the channel in the last two cases; and nothing else.
\<close>

theorem handleMidiMessage_dispatch:
  "\<exists>rest. handleMidiMessage d = Message (parseMidiMessage d) # rest \<and> length rest \<le> 1 \<and>
     ((\<exists>c v f. Note c v f \<in> set rest) \<longleftrightarrow>
        (command (parseMidiMessage d) = 8 \<or> command (parseMidiMessage d) = 9) \<and>
        (channel (parseMidiMessage d) = 0 \<or> channel (parseMidiMessage d) = 15)) \<and>
     ((\<exists>c v. Pad c v \<in> set rest) \<longleftrightarrow>
        (command (parseMidiMessage d) = 8 \<or> command (parseMidiMessage d) = 9) \<and>
        channel (parseMidiMessage d) = 9) \<and>
     ((\<exists>v. ModWheel v \<in> set rest) \<longleftrightarrow>
        command (parseMidiMessage d) = 11 \<and> code (parseMidiMessage d) = Some 1) \<and>
     ((\<exists>v. PitchBend v \<in> set rest) \<longleftrightarrow> command (parseMidiMessage d) = 14) \<and>
     (\<forall>m. Message m \<notin> set rest) \<and> (\<forall>ns. InputChange ns \<notin> set rest)"
  by (simp add: handleMidiMessage_def Let_def)

text \<open>The pitch bend message \<open>0xE3, 0, 127\<close> on channel 3 yields a PitchBend and no other kind.\<close>

theorem handleMidiMessage_dispatch_witness:
  "\<exists>rest. handleMidiMessage [0xE3, 0, 127] = Message (parseMidiMessage [0xE3, 0, 127]) # rest \<and>
     length rest \<le> 1 \<and> (\<exists>v. PitchBend v \<in> set rest) \<and>
     \<not> (\<exists>c v f. Note c v f \<in> set rest) \<and> \<not> (\<exists>c v. Pad c v \<in> set rest) \<and>
     \<not> (\<exists>v. ModWheel v \<in> set rest)"
proof -
  have c: "command (parseMidiMessage [0xE3, 0, 127]) = 14"
    by (simp add: command_Cons)
  show ?thesis
    using handleMidiMessage_dispatch [of "[0xE3, 0, 127]"] unfolding c by simp blast
qed

text \<open>
  Claim C4. Parsing is a total function of the bytes. On a message of one, two or three
  bytes it yields the two nibbles of the status byte; the code is absent when there is
  no second byte, and the value is \<open>NaN\<close> when there is no third byte.
\<close>

theorem parseMidiMessage_total:
  "parseMidiMessage [s] =
     \<lparr>data = [s], command = unat s div 16, channel = unat s mod 16,
      code = None, val = NaN\<rparr> \<and>
   parseMidiMessage [s, c] =
     \<lparr>data = [s, c], command = unat s div 16, channel = unat s mod 16,
      code = Some c, val = NaN\<rparr> \<and>
   parseMidiMessage [s, c, v] =
     \<lparr>data = [s, c, v], command = unat s div 16, channel = unat s mod 16,
      code = Some c, val = Num (real (unat v) / 127)\<rparr>"
  by (simp add: parseMidiMessage_def js_shr4_index0 js_and_0xf_index0)
     (simp add: js_index_def)

subsection \<open>The frequency of a note\<close>





















text \<open>
  Claim C7. When every data byte of the message (every byte after the status byte) is
  at most 127, the parsed channel is below 16, the code, when present, is at most 127,
  and the value, when it is a number, lies between 0 and 1.
\<close>

theorem parseMidiMessage_ranges:
  assumes "\<forall>b \<in> set (tl d). unat b \<le> 127"
  shows "channel (parseMidiMessage d) < 16 \<and>
         (\<forall>c. code (parseMidiMessage d) = Some c \<longrightarrow> unat c \<le> 127) \<and>
         (\<forall>x. val (parseMidiMessage d) = Num x \<longrightarrow> 0 \<le> x \<and> x \<le> 1)"
proof -
  have idx: "js_index d i = Some b \<Longrightarrow> 0 < i \<Longrightarrow> unat b \<le> 127" for i b
  proof -
    assume a: "js_index d i = Some b" and i: "0 < i"
    then have "i < length d" "b = d ! i"
      by (auto simp add: js_index_def split: if_splits)
    then have "b \<in> set (tl d)"
      using i by (cases d) (auto simp add: nth_Cons')
    with assms show ?thesis by blast
  qed
  have code: "\<forall>c. code (parseMidiMessage d) = Some c \<longrightarrow> unat c \<le> 127"
    using idx [of 1] by (simp add: parseMidiMessage_def)
  have v: "\<forall>x. val (parseMidiMessage d) = Num x \<longrightarrow> 0 \<le> x \<and> x \<le> 1"
  proof (cases "js_index d 2")
    case None
    then show ?thesis by (simp add: parseMidiMessage_def)
  next
    case (Some b)
    then have "unat b \<le> 127" using idx [of 2 b] by simp
    then have "0 \<le> real (unat b) / 127 \<and> real (unat b) / 127 \<le> 1"
      by (rule div_127_unit)
    moreover have "val (parseMidiMessage d) = Num (real (unat b) / 127)"
      using Some by (simp add: parseMidiMessage_def)
    ultimately show ?thesis by simp
  qed
  show ?thesis using channel_less_16 code v by blast
qed

text \<open>The message \<open>0x9F, 127, 127\<close> reaches the upper end of each of the three ranges.\<close>

theorem parseMidiMessage_ranges_witness:
  "channel (parseMidiMessage [0x9F, 127, 127]) = 15 \<and>
   channel (parseMidiMessage [0x9F, 127, 127]) < 16 \<and>
   code (parseMidiMessage [0x9F, 127, 127]) = Some 127 \<and>
   val (parseMidiMessage [0x9F, 127, 127]) = Num 1"
proof -
  have h: "\<forall>b \<in> set (tl [0x9F, 127, 127 :: u8]). unat b \<le> 127" by simp
  have "channel (parseMidiMessage [0x9F, 127, 127]) = 15"
    by (simp add: channel_Cons)
  moreover have "code (parseMidiMessage [0x9F, 127, 127]) = Some 127"
    by (simp add: parseMidiMessage_def js_index_def)
  moreover have "val (parseMidiMessage [0x9F, 127, 127]) = Num 1"
    by (simp add: parseMidiMessage_def js_index_def)
  ultimately show ?thesis using h parseMidiMessage_ranges [OF h] by simp
qed

section \<open>Properties of the input curator\<close>

lemma curate_loop_eq:
  "curate_loop xs names n =
     (map (\<lambda>(k, i). (k, i\<lparr>onmidimessage := Some handleMidiMessage\<rparr>)) xs,
      names @ map (\<lambda>(k, i). name i) xs,
      n + length (filter (\<lambda>(k, i). state i = Connected \<and> connection i = Open) xs))"
  by (induction xs names n rule: curate_loop.induct) (simp_all add: Let_def)

lemma curateMidiInputs_eq:
  "curateMidiInputs a this =
     (if Some (open_connected_count a) \<noteq> numberOfOpenConnections this
      then ([InputChange (input_names a)],
            a\<lparr>inputs := map (\<lambda>(k, i). (k, i\<lparr>onmidimessage := Some handleMidiMessage\<rparr>)) (inputs a)\<rparr>,
            this\<lparr>numberOfOpenConnections := Some (open_connected_count a)\<rparr>)
      else ([],
            a\<lparr>inputs := map (\<lambda>(k, i). (k, i\<lparr>onmidimessage := Some handleMidiMessage\<rparr>)) (inputs a)\<rparr>,
            this))"
  by (simp add: curateMidiInputs_def curate_loop_eq input_names_def open_connected_count_def)

lemma curate_stores_count:
  "numberOfOpenConnections (snd (snd (curateMidiInputs a this))) = Some (open_connected_count a)"
  by (simp add: curateMidiInputs_eq)

lemma length_curation_calls: "length (curation_calls this as) = length as"
  by (induction as arbitrary: this) (simp_all split: prod.splits)

lemma curation_calls_0:
  "curation_calls this (a # as) ! 0 =
     (fst (curateMidiInputs a this), snd (snd (curateMidiInputs a this)))"
  by (simp split: prod.splits)

lemma curation_calls_Suc:
  "Suc k < length as \<Longrightarrow>
   curation_calls this as ! Suc k =
     (fst (curateMidiInputs (as ! Suc k) (snd (curation_calls this as ! k))),
      snd (snd (curateMidiInputs (as ! Suc k) (snd (curation_calls this as ! k)))))"
proof (induction k arbitrary: this as)
  case 0
  then obtain a b rest where "as = a # b # rest"
    by (cases as; cases "tl as") auto
  then show ?case by (simp split: prod.splits)
next
  case (Suc k)
  then obtain a rest where as: "as = a # rest" by (cases as) auto
  with Suc.prems have "Suc k < length rest" by simp
  from Suc.IH [OF this] show ?case
    by (simp add: as split: prod.splits)
qed

lemma curation_calls_stored:
  "k < length as \<Longrightarrow>
   numberOfOpenConnections (snd (curation_calls this as ! k)) = Some (open_connected_count (as ! k))"
proof (cases k)
  case 0
  assume "k < length as"
  then obtain a rest where "as = a # rest" by (cases as) auto
  then show ?thesis using 0 by (simp add: curation_calls_0 curate_stores_count del: curation_calls.simps)
next
  case (Suc j)
  assume "k < length as"
  then show ?thesis using Suc by (simp add: curation_calls_Suc curate_stores_count)
qed

text \<open>
  Claim C3. Along any sequence of curation calls of a new listener: the first call
  reports InputChange with the names of all inputs, whatever the count, and stores the
  count; before every later call the stored count is the count of the previous call, and
  the call reports InputChange with all current names and stores the new count when the
  new count differs from the stored one, and reports nothing and leaves the listener as
  it is when they are equal.
\<close>

theorem curation_change_detection:
  assumes "k < length as"
  shows "(k = 0 \<longrightarrow>
            curation_calls new_MidiListener as ! k =
              ([InputChange (input_names (as ! k))],
               \<lparr>numberOfOpenConnections = Some (open_connected_count (as ! k))\<rparr>)) \<and>
         (0 < k \<longrightarrow>
            (let before = snd (curation_calls new_MidiListener as ! (k - 1));
                 n = open_connected_count (as ! k)
             in numberOfOpenConnections before = Some (open_connected_count (as ! (k - 1))) \<and>
                (Some n \<noteq> numberOfOpenConnections before \<longrightarrow>
                   curation_calls new_MidiListener as ! k =
                     ([InputChange (input_names (as ! k))],
                      before\<lparr>numberOfOpenConnections := Some n\<rparr>)) \<and>
                (Some n = numberOfOpenConnections before \<longrightarrow>
                   curation_calls new_MidiListener as ! k = ([], before))))"
proof (cases k)
  case 0
  from assms obtain a rest where as: "as = a # rest" by (cases as) auto
  have "curation_calls new_MidiListener (a # rest) ! 0 =
          ([InputChange (input_names a)], \<lparr>numberOfOpenConnections = Some (open_connected_count a)\<rparr>)"
    unfolding curation_calls_0 by (simp add: curateMidiInputs_eq new_MidiListener_def)
  then show ?thesis using 0 as by simp
next
  case (Suc j)
  have j: "j < length as" using assms Suc by simp
  have st: "numberOfOpenConnections (snd (curation_calls new_MidiListener as ! j)) =
              Some (open_connected_count (as ! j))"
    using j by (rule curation_calls_stored)
  have step: "curation_calls new_MidiListener as ! Suc j =
     (fst (curateMidiInputs (as ! Suc j) (snd (curation_calls new_MidiListener as ! j))),
      snd (snd (curateMidiInputs (as ! Suc j) (snd (curation_calls new_MidiListener as ! j)))))"
    using assms Suc by (simp add: curation_calls_Suc)
  show ?thesis
    unfolding Suc using st by (simp add: step curateMidiInputs_eq Let_def)
qed

text \<open>
  With the counts 0, 2, 2, 1 the first, second and fourth call report, the third does not.
\<close>

theorem curation_change_detection_witness:
  "fst (curation_calls new_MidiListener example_snapshots ! 0) = [InputChange []] \<and>
   fst (curation_calls new_MidiListener example_snapshots ! 1) = [InputChange [''keys'', ''pads'']] \<and>
   fst (curation_calls new_MidiListener example_snapshots ! 2) = [] \<and>
   fst (curation_calls new_MidiListener example_snapshots ! 3) = [InputChange [''keys'', ''pads'']]"
proof -
  have len: "length example_snapshots = 4" by (simp add: example_snapshots_def)
  have c: "open_connected_count (example_snapshots ! 0) = 0"
          "open_connected_count (example_snapshots ! Suc 0) = 2"
          "open_connected_count (example_snapshots ! 2) = 2"
          "open_connected_count (example_snapshots ! 3) = 1"
    by (simp_all add: example_snapshots_def open_connected_count_def port_def)
  have n: "input_names (example_snapshots ! 0) = []"
          "input_names (example_snapshots ! Suc 0) = [''keys'', ''pads'']"
          "input_names (example_snapshots ! 3) = [''keys'', ''pads'']"
    by (simp_all add: example_snapshots_def input_names_def port_def)
  have "fst (curation_calls new_MidiListener example_snapshots ! 0) = [InputChange []]"
    using curation_change_detection [of 0 example_snapshots] by (simp add: len n)
  moreover
  have "fst (curation_calls new_MidiListener example_snapshots ! 1) = [InputChange [''keys'', ''pads'']]"
    using curation_change_detection [of 1 example_snapshots] by (simp add: len n c Let_def)
  moreover
  have "fst (curation_calls new_MidiListener example_snapshots ! 2) = []"
    using curation_change_detection [of 2 example_snapshots] by (simp add: len n c Let_def)
  moreover
  have "fst (curation_calls new_MidiListener example_snapshots ! 3) = [InputChange [''keys'', ''pads'']]"
    using curation_change_detection [of 3 example_snapshots] by (simp add: len n c Let_def)
  ultimately show ?thesis by simp
qed

text \<open>
  Claim C9. Every curation call, whatever the stored count, assigns the classifier to the
  message handler slot of every input of the list and changes nothing else of the
  inputs; afterwards the handler of each input is \<open>handleMidiMessage\<close>.
\<close>

theorem curate_attaches_handler:
  "inputs (fst (snd (curateMidiInputs a this))) =
     map (\<lambda>(k, i). (k, i\<lparr>onmidimessage := Some handleMidiMessage\<rparr>)) (inputs a) \<and>
   (\<forall>(k, i) \<in> set (inputs (fst (snd (curateMidiInputs a this)))).
      onmidimessage i = Some handleMidiMessage)"
  by (auto simp add: curateMidiInputs_eq)

text \<open>A call that reports nothing, the count being 2 as stored, still assigns all three handlers.\<close>

theorem curate_attaches_handler_witness:
  "map (\<lambda>(k, i). onmidimessage i)
     (inputs (fst (snd (curateMidiInputs (example_snapshots ! 2)
        \<lparr>numberOfOpenConnections = Some 2\<rparr>)))) =
     [Some handleMidiMessage, Some handleMidiMessage, Some handleMidiMessage] \<and>
   fst (curateMidiInputs (example_snapshots ! 2) \<lparr>numberOfOpenConnections = Some 2\<rparr>) = []"
proof -
  have i: "inputs (example_snapshots ! 2) =
     [port ''keys'' Connected Open, port ''pads'' Connected Open, port ''wind'' Connected Closed]"
    by (simp add: example_snapshots_def)
  have c: "open_connected_count (example_snapshots ! 2) = 2"
    by (simp add: example_snapshots_def open_connected_count_def port_def)
  have "fst (curateMidiInputs (example_snapshots ! 2) \<lparr>numberOfOpenConnections = Some 2\<rparr>) = []"
    by (simp add: curateMidiInputs_eq c)
  then show ?thesis
    using curate_attaches_handler [of "example_snapshots ! 2" "\<lparr>numberOfOpenConnections = Some 2\<rparr>"]
    by (simp add: i port_def)
qed

text \<open>
  Claim C10. The names of a reported InputChange are the names of all inputs of the
  access object in enumeration order, whatever their state and connection; there are
  calls whose report names a disconnected, closed input and is longer than the count of
  open, connected inputs.
\<close>

theorem inputChange_names_all_inputs:
  "(InputChange ns \<in> set (fst (curateMidiInputs a this)) \<longrightarrow>
      ns = map (\<lambda>(k, i). name i) (inputs a)) \<and>
   (\<exists>a' this' ns'.
      InputChange ns' \<in> set (fst (curateMidiInputs a' this')) \<and>
      open_connected_count a' < length ns' \<and>
      (\<exists>(k, i) \<in> set (inputs a'). name i \<in> set ns' \<and> state i = Disconnected \<and> connection i = Closed))"
proof
  show "InputChange ns \<in> set (fst (curateMidiInputs a this)) \<longrightarrow>
      ns = map (\<lambda>(k, i). name i) (inputs a)"
    by (simp add: curateMidiInputs_eq input_names_def)
next
  let ?a = "example_snapshots ! 3"
  have i: "inputs ?a = [port ''keys'' Connected Open, port ''pads'' Disconnected Closed]"
    by (simp add: example_snapshots_def)
  have c: "open_connected_count ?a = 1"
    by (simp add: example_snapshots_def open_connected_count_def port_def)
  have n: "input_names ?a = [''keys'', ''pads'']"
    by (simp add: example_snapshots_def input_names_def port_def)
  have e: "fst (curateMidiInputs ?a new_MidiListener) = [InputChange [''keys'', ''pads'']]"
    by (simp add: curateMidiInputs_eq new_MidiListener_def n)
  have "InputChange [''keys'', ''pads''] \<in> set (fst (curateMidiInputs ?a new_MidiListener)) \<and>
      open_connected_count ?a < length [''keys'', ''pads''] \<and>
      (\<exists>(k, i) \<in> set (inputs ?a). name i \<in> set [''keys'', ''pads''] \<and> state i = Disconnected \<and> connection i = Closed)"
    unfolding e c i by (simp add: port_def)
  then show "\<exists>a' this' ns'.
      InputChange ns' \<in> set (fst (curateMidiInputs a' this')) \<and>
      open_connected_count a' < length ns' \<and>
      (\<exists>(k, i) \<in> set (inputs a'). name i \<in> set ns' \<and> state i = Disconnected \<and> connection i = Closed)"
    by blast
qed

text \<open>
  With one open input and one disconnected, closed input the report names both, while
  the count is 1.
\<close>

theorem inputChange_names_all_inputs_witness:
  "fst (curateMidiInputs (example_snapshots ! 3) \<lparr>numberOfOpenConnections = Some 2\<rparr>) =
     [InputChange [''keys'', ''pads'']] \<and>
   map (\<lambda>(k, i). (name i, state i, connection i)) (inputs (example_snapshots ! 3)) =
     [(''keys'', Connected, Open), (''pads'', Disconnected, Closed)] \<and>
   open_connected_count (example_snapshots ! 3) = 1"
proof -
  let ?a = "example_snapshots ! 3"
  have i: "inputs ?a = [port ''keys'' Connected Open, port ''pads'' Disconnected Closed]"
    by (simp add: example_snapshots_def)
  have c: "open_connected_count ?a = 1"
    by (simp add: example_snapshots_def open_connected_count_def port_def)
  obtain ns where e: "fst (curateMidiInputs ?a \<lparr>numberOfOpenConnections = Some 2\<rparr>) = [InputChange ns]"
    by (simp add: curateMidiInputs_eq c)
  then have "InputChange ns \<in> set (fst (curateMidiInputs ?a \<lparr>numberOfOpenConnections = Some 2\<rparr>))"
    by simp
  with inputChange_names_all_inputs [of ns ?a "\<lparr>numberOfOpenConnections = Some 2\<rparr>"]
  have "ns = map (\<lambda>(k, i). name i) (inputs ?a)" by blast
  then have "ns = [''keys'', ''pads'']" by (simp add: i port_def)
  with e c show ?thesis by (simp add: i port_def)
qed

section \<open>Properties of the callback registry\<close>

lemma run_op_frame:
  "\<not> is_Add op \<Longrightarrow> r < fresh c \<Longrightarrow>
   arrays (run_op op c) r = arrays c r \<and> r < fresh (run_op op c)"
  by (cases op) (simp_all add: Caller_remove_def Caller_clear_def)

lemma run_ops_frame:
  "adds_nothing ops \<Longrightarrow> r < fresh c \<Longrightarrow>
   arrays (fold run_op ops c) r = arrays c r \<and> r < fresh (fold run_op ops c)"
proof (induction ops arbitrary: c)
  case Nil
  then show ?case by simp
next
  case (Cons op ops)
  then have "\<not> is_Add op" "adds_nothing ops" by (simp_all add: adds_nothing_def)
  with Cons.IH [of "run_op op c"] run_op_frame [of op r c] Cons.prems(2)
  show ?case by simp
qed

lemma run_op_registered_subset:
  "\<not> is_Add op \<Longrightarrow> set (registered (run_op op c)) \<subseteq> set (registered c)"
  by (cases op) (auto simp add: registered_def Caller_remove_def Caller_clear_def)

lemma run_ops_registered_subset:
  "adds_nothing ops \<Longrightarrow> set (registered (fold run_op ops c)) \<subseteq> set (registered c)"
proof (induction ops arbitrary: c)
  case Nil
  then show ?case by simp
next
  case (Cons op ops)
  then have "\<not> is_Add op" "adds_nothing ops" by (simp_all add: adds_nothing_def)
  with Cons.IH [of "run_op op c"] run_op_registered_subset [of op c]
  show ?case by auto
qed

lemma registered_Caller_remove:
  "registered (Caller_remove f c) = filter (\<lambda>cb. cb \<noteq> f) (registered c)"
  by (simp add: registered_def Caller_remove_def)

lemma run_ops_removed:
  "adds_nothing ops \<Longrightarrow> Remove f \<in> set ops \<Longrightarrow> f \<notin> set (registered (fold run_op ops c))"
proof (induction ops arbitrary: c)
  case Nil
  then show ?case by simp
next
  case (Cons op ops)
  then have na: "\<not> is_Add op" "adds_nothing ops" by (simp_all add: adds_nothing_def)
  show ?case
  proof (cases "op = Remove f")
    case True
    then have "f \<notin> set (registered (run_op op c))"
      by (simp add: registered_Caller_remove)
    with run_ops_registered_subset [OF na(2), of "run_op op c"] show ?thesis by auto
  next
    case False
    with Cons.prems have "Remove f \<in> set ops" by simp
    from Cons.IH [OF na(2) this] show ?thesis by simp
  qed
qed

lemma after_callbacks_frame:
  "\<forall>g \<in> set gs. adds_nothing (beh g args) \<Longrightarrow> r < fresh c \<Longrightarrow>
   arrays (after_callbacks beh args gs c) r = arrays c r \<and>
   r < fresh (after_callbacks beh args gs c)"
proof (induction gs arbitrary: c)
  case Nil
  then show ?case by (simp add: after_callbacks_def)
next
  case (Cons g gs)
  from Cons.prems have g: "adds_nothing (beh g args)" by simp
  from run_ops_frame [OF g Cons.prems(2)] Cons.IH [of "fold run_op (beh g args) c"] Cons.prems(1)
  show ?case by (simp add: after_callbacks_def)
qed

lemma after_callbacks_subset:
  "\<forall>g \<in> set gs. adds_nothing (beh g args) \<Longrightarrow>
   set (registered (after_callbacks beh args gs c)) \<subseteq> set (registered c)"
proof (induction gs arbitrary: c)
  case Nil
  then show ?case by (simp add: after_callbacks_def)
next
  case (Cons g gs)
  from Cons.prems have g: "adds_nothing (beh g args)" by simp
  from run_ops_registered_subset [OF g, of c] Cons.IH [of "fold run_op (beh g args) c"] Cons.prems
  show ?case by (auto simp add: after_callbacks_def)
qed

lemma after_callbacks_removed:
  "\<forall>g \<in> set gs. adds_nothing (beh g args) \<Longrightarrow> f \<in> set gs \<Longrightarrow>
   Remove f \<in> set (beh f args) \<Longrightarrow>
   f \<notin> set (registered (after_callbacks beh args gs c))"
proof (induction gs arbitrary: c)
  case Nil
  then show ?case by simp
next
  case (Cons g gs)
  from Cons.prems have g: "adds_nothing (beh g args)" and gs: "\<forall>g \<in> set gs. adds_nothing (beh g args)"
    by simp_all
  have unfold: "after_callbacks beh args (g # gs) c =
                after_callbacks beh args gs (fold run_op (beh g args) c)"
    by (simp add: after_callbacks_def)
  show ?case
  proof (cases "f \<in> set gs")
    case True
    from Cons.IH [OF gs True Cons.prems(3)] show ?thesis by (simp add: unfold)
  next
    case False
    with Cons.prems have "g = f" by simp
    then have "f \<notin> set (registered (fold run_op (beh g args) c))"
      using run_ops_removed [OF g, of f c] Cons.prems(3) by simp
    moreover have "set (registered (after_callbacks beh args gs (fold run_op (beh g args) c)))
                     \<subseteq> set (registered (fold run_op (beh g args) c))"
      using gs by (rule after_callbacks_subset)
    ultimately show ?thesis by (auto simp add: unfold)
  qed
qed

lemma invoke_loop_no_add:
  "r < fresh c \<Longrightarrow> \<forall>g \<in> set (drop i (arrays c r)). adds_nothing (beh g args) \<Longrightarrow>
   invoke_loop beh args r i called c =
     Some (called @ drop i (arrays c r), after_callbacks beh args (drop i (arrays c r)) c)"
proof (induction "length (arrays c r) - i" arbitrary: i called c)
  case 0
  then have "\<not> i < length (arrays c r)" by simp
  then show ?case
    by (subst invoke_loop.simps) (simp add: after_callbacks_def)
next
  case (Suc n)
  then have i: "i < length (arrays c r)" by simp
  let ?g = "arrays c r ! i"
  let ?c1 = "fold run_op (beh ?g args) c"
  have d: "drop i (arrays c r) = ?g # drop (Suc i) (arrays c r)"
    using i by (simp add: Cons_nth_drop_Suc)
  have g: "adds_nothing (beh ?g args)" using Suc.prems(2) d by simp
  from run_ops_frame [OF g Suc.prems(1)]
  have fr: "arrays ?c1 r = arrays c r" "r < fresh ?c1" by simp_all
  have n: "n = length (arrays ?c1 r) - Suc i" using Suc.hyps(2) fr by simp
  have rest: "\<forall>g \<in> set (drop (Suc i) (arrays ?c1 r)). adds_nothing (beh g args)"
    using Suc.prems(2) d fr by simp
  have "invoke_loop beh args r i called c =
        invoke_loop beh args r (Suc i) (called @ [?g]) ?c1"
    using i by (subst invoke_loop.simps) simp
  also have "\<dots> = Some ((called @ [?g]) @ drop (Suc i) (arrays ?c1 r),
                        after_callbacks beh args (drop (Suc i) (arrays ?c1 r)) ?c1)"
    using Suc.hyps(1) [OF n fr(2) rest] .
  also have "\<dots> = Some (called @ drop i (arrays c r),
                        after_callbacks beh args (drop i (arrays c r)) c)"
    unfolding fr(1) by (simp add: d after_callbacks_def)
  finally show ?case .
qed

lemma Caller_invoke_no_add:
  assumes "callbacks c < fresh c" and "\<forall>g \<in> set (registered c). adds_nothing (beh g args)"
  shows "Caller_invoke beh args c = Some (registered c, after_callbacks beh args (registered c) c)"
  using invoke_loop_no_add [of "callbacks c" c 0 beh args "[]"] assms
  by (simp add: Caller_invoke_def registered_def)

text \<open>
  The field \<^verbatim>\<open>callbacks\<close> always holds an address in use: this is so for a new
  registry, and every operation keeps it so.
\<close>

lemma new_Caller_allocated: "callbacks new_Caller < fresh new_Caller"
  by (simp add: new_Caller_def)

lemma run_op_allocated: "callbacks c < fresh c \<Longrightarrow> callbacks (run_op op c) < fresh (run_op op c)"
  by (cases op) (simp_all add: Caller_add_def Caller_remove_def Caller_clear_def)

lemma run_ops_allocated:
  "callbacks c < fresh c \<Longrightarrow> callbacks (fold run_op ops c) < fresh (fold run_op ops c)"
  by (induction ops arbitrary: c) (simp_all add: run_op_allocated)

lemma after_callbacks_allocated:
  "callbacks c < fresh c \<Longrightarrow>
   callbacks (after_callbacks beh args gs c) < fresh (after_callbacks beh args gs c)"
  unfolding after_callbacks_def
  by (induction gs arbitrary: c) (simp_all add: run_ops_allocated)

text \<open>
  Claim C5. Let a registry, its field holding an address in use, have the subscriber
  \<open>f\<close>, let the body of \<open>f\<close> unsubscribe \<open>f\<close>, and let no subscriber subscribe
  anything from its body. Then \<open>invoke\<close> returns, it has called every subscriber of
  the list it started on, in order, \<open>f\<close> is no longer registered afterwards, and every
  later \<open>invoke\<close> returns without having called \<open>f\<close>.
\<close>

theorem remove_during_invoke:
  assumes alloc: "callbacks c < fresh c"
    and f: "f \<in> set (registered c)"
    and rem: "Remove f \<in> set (beh f args)"
    and na: "\<forall>g \<in> set (registered c). \<forall>a. adds_nothing (beh g a)"
  shows "\<exists>c'. Caller_invoke beh args c = Some (registered c, c') \<and>
              f \<notin> set (registered c') \<and>
              (\<forall>args'. \<exists>called c''. Caller_invoke beh args' c' = Some (called, c'') \<and>
                          f \<notin> set called)"
proof -
  let ?c' = "after_callbacks beh args (registered c) c"
  have na1: "\<forall>g \<in> set (registered c). adds_nothing (beh g args)" using na by simp
  have 1: "Caller_invoke beh args c = Some (registered c, ?c')"
    using alloc na1 by (rule Caller_invoke_no_add)
  have 2: "f \<notin> set (registered ?c')"
    using na1 f rem by (rule after_callbacks_removed)
  have sub: "set (registered ?c') \<subseteq> set (registered c)"
    using na1 by (rule after_callbacks_subset)
  have alloc': "callbacks ?c' < fresh ?c'"
    using alloc by (rule after_callbacks_allocated)
  have 3: "\<exists>called c''. Caller_invoke beh args' ?c' = Some (called, c'') \<and> f \<notin> set called" for args'
  proof -
    have "\<forall>g \<in> set (registered ?c'). adds_nothing (beh g args')" using na sub by blast
    with alloc' have "Caller_invoke beh args' ?c' =
        Some (registered ?c', after_callbacks beh args' (registered ?c') ?c')"
      by (rule Caller_invoke_no_add)
    with 2 show ?thesis by blast
  qed
  from 1 2 3 show ?thesis by blast
qed

text \<open>
  With the subscribers 1, 2, 3 and 2 unsubscribing itself, all three are called, and 2
  is not called again.
\<close>

theorem remove_during_invoke_witness:
  "\<exists>c'. Caller_invoke example_beh 0 example_caller = Some ([1, 2, 3], c') \<and>
         2 \<notin> set (registered c') \<and>
         (\<forall>args'. \<exists>called c''. Caller_invoke example_beh args' c' = Some (called, c'') \<and>
                     2 \<notin> set called)"
proof -
  have r: "registered example_caller = [1, 2, 3]"
    by (simp add: example_caller_def registered_def Caller_add_def new_Caller_def)
  have a: "callbacks example_caller < fresh example_caller"
    by (simp add: example_caller_def Caller_add_def new_Caller_def)
  have f: "2 \<in> set (registered example_caller)" by (simp add: r)
  have rem: "Remove 2 \<in> set (example_beh 2 0)" by (simp add: example_beh_def)
  have na: "\<forall>g \<in> set (registered example_caller). \<forall>a. adds_nothing (example_beh g a)"
    by (simp add: r example_beh_def adds_nothing_def)
  from remove_during_invoke [OF a f rem na] show ?thesis by (simp add: r)
qed

section \<open>Properties of the subscriptions\<close>

lemma invoke_loop_inert:
  "invoke_loop (\<lambda>g a. []) args r i called c = Some (called @ drop i (arrays c r), c)"
proof (induction "length (arrays c r) - i" arbitrary: i called)
  case 0
  then show ?case by (subst invoke_loop.simps) simp
next
  case (Suc n)
  then have i: "i < length (arrays c r)" and n: "n = length (arrays c r) - Suc i" by simp_all
  show ?case
    using i Suc.hyps(1) [OF n, of "called @ [arrays c r ! i]"]
    by (subst invoke_loop.simps) (simp add: Cons_nth_drop_Suc)
qed

lemma Caller_invoke_inert: "Caller_invoke (\<lambda>g a. []) args c = Some (registered c, c)"
  by (simp add: Caller_invoke_def invoke_loop_inert registered_def)

lemma registered_Caller_add: "registered (Caller_add f c) = registered c @ [f]"
  by (simp add: registered_def Caller_add_def)

lemma registered_fold_remove:
  "distinct es \<Longrightarrow>
   registered (fold (\<lambda>e ev. case cbs e of None \<Rightarrow> ev | Some f \<Rightarrow> ev(e := Caller_remove f (ev e))) es evs e) =
     (if e \<in> set es then filter (\<lambda>f. cbs e \<noteq> Some f) (registered (evs e)) else registered (evs e))"
proof (induction es arbitrary: evs)
  case Nil
  then show ?case by simp
next
  case (Cons x es)
  then have d: "distinct es" and x: "x \<notin> set es" by simp_all
  show ?case
    using x by (simp add: Cons.IH [OF d] registered_Caller_remove split: option.splits)
      (auto intro!: filter_cong)
qed

lemma registered_fold_add:
  "distinct es \<Longrightarrow>
   registered (fold (\<lambda>e ev. case cbs e of None \<Rightarrow> ev | Some f \<Rightarrow> ev(e := Caller_add f (ev e))) es evs e) =
     (if e \<in> set es then registered (evs e) @ (case cbs e of None \<Rightarrow> [] | Some f \<Rightarrow> [f])
      else registered (evs e))"
proof (induction es arbitrary: evs)
  case Nil
  then show ?case by simp
next
  case (Cons x es)
  then have d: "distinct es" and x: "x \<notin> set es" by simp_all
  show ?case
    using x by (simp add: Cons.IH [OF d] registered_Caller_add split: option.splits)
qed

lemma distinct_eventNames: "distinct eventNames"
  by (simp add: eventNames_def)

lemma eventNames_all: "e \<in> set eventNames"
  by (cases e) (simp_all add: eventNames_def)

lemma registered_revoke:
  "registered (revoke cbs evs e) = filter (\<lambda>f. cbs e \<noteq> Some f) (registered (evs e))"
  by (simp add: revoke_def registered_fold_remove [OF distinct_eventNames] eventNames_all)

text \<open>
  Claim C8. \<open>subscribe\<close> appends to the registry of each event the callback given for
  it. The function it returns, applied at any later moment, removes from the registry of
  each event every entry that is the callback given for that event and no other entry:
  what remains is registered in the same order, and an event then calls exactly what
  remains (shown for callbacks that leave the registry alone).
\<close>

theorem unsubscribe_removes_exactly:
  "(case subscribe cbs evs of
      (evs', unsubscribe) \<Rightarrow>
        (\<forall>e. registered (evs' e) =
               registered (evs e) @ (case cbs e of None \<Rightarrow> [] | Some f \<Rightarrow> [f])) \<and>
        (\<forall>later e. registered (unsubscribe later e) =
               filter (\<lambda>f. cbs e \<noteq> Some f) (registered (later e))) \<and>
        (\<forall>later e args. \<exists>c'. Caller_invoke (\<lambda>g a. []) args (unsubscribe later e) =
               Some (filter (\<lambda>f. cbs e \<noteq> Some f) (registered (later e)), c')))"
  by (simp add: subscribe_def registered_fold_add [OF distinct_eventNames] eventNames_all
        registered_revoke Caller_invoke_inert)

text \<open>
  After two subscriptions, revoking the first leaves the callbacks of the second, 3
  for notes and 4 for pads.
\<close>

theorem unsubscribe_removes_exactly_witness:
  "registered (fst (subscribe example_cbs_B (fst (subscribe example_cbs_A new_events))) onNote) = [1, 3] \<and>
   registered (fst (subscribe example_cbs_B (fst (subscribe example_cbs_A new_events))) onPad) = [2, 4] \<and>
   registered (snd (subscribe example_cbs_A new_events)
                 (fst (subscribe example_cbs_B (fst (subscribe example_cbs_A new_events)))) onNote) = [3] \<and>
   registered (snd (subscribe example_cbs_A new_events)
                 (fst (subscribe example_cbs_B (fst (subscribe example_cbs_A new_events)))) onPad) = [4]"
proof -
  have n: "registered (new_events e) = []" for e :: eventName
    by (simp add: new_events_def new_Caller_def registered_def)
  note a = unsubscribe_removes_exactly
             [where cbs = example_cbs_A and evs = new_events, unfolded case_prod_beta]
  note b = unsubscribe_removes_exactly
             [where cbs = example_cbs_B and evs = "fst (subscribe example_cbs_A new_events)",
              unfolded case_prod_beta]
  have A1: "registered (fst (subscribe example_cbs_A new_events) e) =
              (case example_cbs_A e of None \<Rightarrow> [] | Some f \<Rightarrow> [f])" for e
    using a [THEN conjunct1] by (simp add: n)
  have A2: "registered (snd (subscribe example_cbs_A new_events) later e) =
              filter (\<lambda>f. example_cbs_A e \<noteq> Some f) (registered (later e))" for later e
    using a [THEN conjunct2, THEN conjunct1] by simp
  have B1: "registered (fst (subscribe example_cbs_B (fst (subscribe example_cbs_A new_events))) e) =
              registered (fst (subscribe example_cbs_A new_events) e) @
              (case example_cbs_B e of None \<Rightarrow> [] | Some f \<Rightarrow> [f])" for e
    using b [THEN conjunct1] by simp
  show ?thesis
    by (simp add: A1 A2 B1) (simp add: example_cbs_A_def example_cbs_B_def)
qed

end
